theory Spec2Isabelle
  imports Complex_Main "HOL-Library.Word" "HOL-Library.Log_Nat"
begin

section \<open>SlizzAi v3.6: scheduler, codec, resource gate and production loop\<close>

text \<open>
  A shallow embedding of \<^verbatim>\<open>src/SlizzAi-3.6.py\<close>. Python integers are \<open>int\<close>.
  Finite Python and NumPy floating-point values are real numbers. The classes and the
  loop are modelled first with every arithmetic operation on them exact. Where a
  property depends on the rounding itself (the two quotients of the scheduler, the
  products and the quotient of the codec), the operation is modelled a second time as
  the machine computes it, in binary64 or binary32: these are the definitions
  \<open>next_tile_uv_float\<close>, \<open>compress_float32\<close> and \<open>decompress_float32\<close>.
  Exceptions are values of the type \<open>error\<close>.
\<close>

datatype error =
    ZeroDivisionError
  | ValueError
  | AssertionError
  | RequestException
  | RuntimeError real real

subsection \<open>FrameScheduler\<close>

record FrameScheduler =
  prev :: int
  cur :: int
  modulus :: int

text \<open>\<^verbatim>\<open>FrameScheduler.__init__(modulus)\<close>.\<close>

definition init_scheduler :: "int \<Rightarrow> FrameScheduler" where
  "init_scheduler m = \<lparr>prev = 0, cur = 1, modulus = m\<rparr>"

text \<open>
  \<^verbatim>\<open>next_tile_uv\<close>. The first \<^verbatim>\<open>%\<close> raises \<^verbatim>\<open>ZeroDivisionError\<close> for a zero modulus,
  before any field is assigned. Python's \<^verbatim>\<open>%\<close> on integers is floored, as \<open>mod\<close> on
  \<open>int\<close> is; \<^verbatim>\<open>/\<close> is true division.
\<close>

definition next_tile_uv :: "FrameScheduler \<Rightarrow> error + ((real \<times> real) \<times> FrameScheduler)" where
  "next_tile_uv s =
     (if modulus s = 0 then Inl ZeroDivisionError
      else
        let fib_n = cur s;
            s' = s\<lparr>prev := cur s, cur := (prev s + cur s) mod modulus s\<rparr>;
            u = real_of_int (fib_n mod modulus s') / real_of_int (modulus s');
            v = real_of_int (cur s' mod modulus s') / real_of_int (modulus s')
        in Inr ((u, v), s'))"

definition reset :: "FrameScheduler \<Rightarrow> FrameScheduler" where
  "reset s = s\<lparr>prev := 0, cur := 1\<rparr>"

text \<open>
  \<open>n\<close> successive calls of \<^verbatim>\<open>next_tile_uv\<close> on one scheduler: the coordinates in call
  order and the scheduler afterwards. An exception ends the sequence.
\<close>

fun next_tile_uv_n :: "nat \<Rightarrow> FrameScheduler \<Rightarrow> error + ((real \<times> real) list \<times> FrameScheduler)" where
  "next_tile_uv_n 0 s = Inr ([], s)"
| "next_tile_uv_n (Suc n) s =
     (case next_tile_uv s of
        Inl e \<Rightarrow> Inl e
      | Inr (c, s') \<Rightarrow>
          (case next_tile_uv_n n s' of
             Inl e \<Rightarrow> Inl e
           | Inr (cs, s'') \<Rightarrow> Inr (c # cs, s'')))"

subsection \<open>GoldenRatioCompressor\<close>

text \<open>
  \<^verbatim>\<open>PHI = (1 + 5**0.5) / 2.0\<close> is a double: \<^verbatim>\<open>0x1.9e3779b97f4a8p+0\<close>, whose exact
  value is the rational below.
\<close>

definition PHI :: real where
  "PHI = 910872158600853 / 562949953421312"

text \<open>\<^verbatim>\<open>np.round\<close>: to the nearest integer, a tie to the even neighbour.\<close>

definition np_round :: "real \<Rightarrow> int" where
  "np_round x =
     (let f = \<lfloor>x\<rfloor>; d = x - real_of_int f
      in if d < 1 / 2 then f
         else if 1 / 2 < d then f + 1
         else if even f then f else f + 1)"

text \<open>
  \<^verbatim>\<open>astype(np.int16)\<close> has no range check: the integer is stored in a 16-bit
  two's-complement cell, so a value beyond the cell wraps around modulo \<open>2 ^ 16\<close>.
\<close>

definition astype_int16 :: "int \<Rightarrow> 16 word" where
  "astype_int16 k = word_of_int k"

text \<open>\<^verbatim>\<open>tobytes\<close>: each cell as two bytes, low byte first.\<close>

definition int16_tobytes :: "16 word \<Rightarrow> 8 word list" where
  "int16_tobytes w = [ucast w, ucast (drop_bit 8 w)]"

definition compress :: "real list \<Rightarrow> 8 word list" where
  "compress data =
     concat (map (\<lambda>x. int16_tobytes (astype_int16 (np_round (x * PHI * 1000)))) data)"

text \<open>The 16-bit cells of a buffer, low byte first; a trailing odd byte is no cell.\<close>

fun int16_cells :: "8 word list \<Rightarrow> 16 word list" where
  "int16_cells (lo # hi # rest) = word_cat hi lo # int16_cells rest"
| "int16_cells _ = []"

text \<open>
  \<^verbatim>\<open>np.frombuffer(blob, dtype=np.int16, count=length)\<close>. A negative count asks for
  the whole buffer, whose size must then be a multiple of the cell size; otherwise the
  buffer must hold at least \<open>count\<close> cells, and only the first \<open>count\<close> are read. Both
  failures are a \<^verbatim>\<open>ValueError\<close>.
\<close>

definition frombuffer_int16 :: "8 word list \<Rightarrow> int \<Rightarrow> error + 16 word list" where
  "frombuffer_int16 blob count =
     (if count < 0 then
        (if length blob mod 2 \<noteq> 0 then Inl ValueError else Inr (int16_cells blob))
      else if int (length blob) < count * 2 then Inl ValueError
      else Inr (take (nat count) (int16_cells blob)))"

definition decompress :: "8 word list \<Rightarrow> int \<Rightarrow> error + real list" where
  "decompress blob len =
     (case frombuffer_int16 blob len of
        Inl e \<Rightarrow> Inl e
      | Inr arr \<Rightarrow> Inr (map (\<lambda>c. real_of_int (sint c) / (PHI * 1000)) arr))"

subsection \<open>ResourceManager\<close>

record ResourceManager =
  water_limit :: real
  used :: real

definition TEMP_BASE :: real where
  "TEMP_BASE = 30"

definition L_PER_DEGREE :: real where
  "L_PER_DEGREE = 5 / 100000"

definition init_manager :: "real \<Rightarrow> ResourceManager" where
  "init_manager limit = \<lparr>water_limit = limit, used = 0\<rparr>"

text \<open>
  What \<^verbatim>\<open>psutil\<close> offers to \<^verbatim>\<open>update\<close>: no callable \<^verbatim>\<open>sensors_temperatures\<close>, a result
  that is not a dictionary, or a dictionary whose items (in iteration order) map a sensor
  name to the \<^verbatim>\<open>current\<close> temperatures of its entries.
\<close>

datatype sensors =
    NotCallable
  | NotADict
  | SensorData "(string \<times> real list) list"

text \<open>The loop over the items: the first entry of the first sensor that has entries.\<close>

fun first_reading :: "(string \<times> real list) list \<Rightarrow> real option" where
  "first_reading [] = None"
| "first_reading ((_, []) # rest) = first_reading rest"
| "first_reading ((_, e # _) # rest) = Some e"

definition add_usage :: "real \<Rightarrow> ResourceManager \<Rightarrow> ResourceManager" where
  "add_usage temperature m =
     (let delta = max 0 (temperature - TEMP_BASE)
      in m\<lparr>used := used m + delta * L_PER_DEGREE\<rparr>)"

definition update :: "sensors \<Rightarrow> ResourceManager \<Rightarrow> ResourceManager" where
  "update src m =
     (case src of
        SensorData items \<Rightarrow>
          (case first_reading items of
             Some current \<Rightarrow> add_usage current m
           | None \<Rightarrow> add_usage 35 m)
      | NotADict \<Rightarrow> add_usage 35 m
      | NotCallable \<Rightarrow> add_usage 35 m)"

definition gate :: "ResourceManager \<Rightarrow> error + unit" where
  "gate m =
     (if water_limit m \<le> used m then Inl (RuntimeError (used m) (water_limit m))
      else Inr ())"

subsection \<open>run_pipeline\<close>

text \<open>
  The configuration keys the loop reads; \<^verbatim>\<open>cfg.get\<close> supplies a default for an absent
  optional key.
\<close>

record config =
  cfg_fib_modulus :: "int option"
  cfg_water_limit :: real
  cfg_num_tiles :: "int option"

text \<open>
  The files \<^verbatim>\<open>tile_NNN.png\<close> and \<^verbatim>\<open>final_NNN.png\<close> of the output directory, by tile
  index.
\<close>

datatype out_file = tile_png nat | final_png nat

text \<open>
  What the outside world supplies to one iteration: the random geometry deltas, whether
  the super-sampling request succeeds, and the state of the temperature sensors.
\<close>

record tile_world =
  geometry_delta :: "real list"
  supersample_ok :: bool
  temps :: sensors

text \<open>
  The state the loop works on: scheduler, manager, the files written so far (in write
  order) and the logged line of each tile that was started (index and coordinates).
\<close>

record pipeline =
  scheduler :: FrameScheduler
  manager :: ResourceManager
  written :: "out_file list"
  started :: "(nat \<times> real \<times> real) list"

datatype run_state = Completed | Aborted error

text \<open>\<^verbatim>\<open>np.allclose(a, b, atol=1e-3)\<close>, with the default \<^verbatim>\<open>rtol=1e-5\<close>.\<close>

definition allclose :: "real list \<Rightarrow> real list \<Rightarrow> bool" where
  "allclose a b = list_all2 (\<lambda>x y. \<bar>x - y\<bar> \<le> 1 / 1000 + 1 / 100000 * \<bar>y\<bar>) a b"

text \<open>
  The body of the loop for tile \<open>idx\<close>, in the order of the source: coordinates and
  their log line, round trip of the deltas with its \<^verbatim>\<open>assert\<close>, export of the tile file,
  super-sampling into the final file, \<open>update\<close>, \<open>gate\<close>. An exception leaves the
  loop with the state reached so far; \<open>None\<close> means the iteration ran to its end. The
  export stub is taken to succeed; creating the output directory and the pacing delay
  have no part in the state.
\<close>

definition process_tile :: "tile_world \<Rightarrow> nat \<Rightarrow> pipeline \<Rightarrow> error option \<times> pipeline" where
  "process_tile w idx st =
     (case next_tile_uv (scheduler st) of
        Inl e \<Rightarrow> (Some e, st)
      | Inr ((u, v), sch) \<Rightarrow>
          let st1 = st\<lparr>scheduler := sch, started := started st @ [(idx, u, v)]\<rparr>;
              blob = compress (geometry_delta w)
          in (case decompress blob (int (length (geometry_delta w))) of
                Inl e \<Rightarrow> (Some e, st1)
              | Inr recon \<Rightarrow>
                  if \<not> allclose (geometry_delta w) recon then (Some AssertionError, st1)
                  else
                    let st2 = st1\<lparr>written := written st1 @ [tile_png idx]\<rparr>
                    in if \<not> supersample_ok w then (Some RequestException, st2)
                       else
                         let st3 = st2\<lparr>written := written st2 @ [final_png idx]\<rparr>;
                             st4 = st3\<lparr>manager := update (temps w) (manager st3)\<rparr>
                         in (case gate (manager st4) of
                               Inl e \<Rightarrow> (Some e, st4)
                             | Inr _ \<Rightarrow> (None, st4))))"

text \<open>\<^verbatim>\<open>for idx in range(num_tiles)\<close>: an exception in one iteration ends the run.\<close>

fun run_tiles :: "(nat \<Rightarrow> tile_world) \<Rightarrow> nat list \<Rightarrow> pipeline \<Rightarrow> run_state \<times> pipeline" where
  "run_tiles world [] st = (Completed, st)"
| "run_tiles world (idx # rest) st =
     (case process_tile (world idx) idx st of
        (Some e, st') \<Rightarrow> (Aborted e, st')
      | (None, st') \<Rightarrow> run_tiles world rest st')"

definition run_pipeline :: "config \<Rightarrow> (nat \<Rightarrow> tile_world) \<Rightarrow> run_state \<times> pipeline" where
  "run_pipeline cfg world =
     (let sch = init_scheduler (case cfg_fib_modulus cfg of None \<Rightarrow> 100000 | Some m \<Rightarrow> m);
          mgr = init_manager (cfg_water_limit cfg);
          num_tiles = (case cfg_num_tiles cfg of None \<Rightarrow> 24 | Some n \<Rightarrow> n)
      in run_tiles world [0..<nat num_tiles]
           \<lparr>scheduler = reset sch, manager = mgr, written = [], started = []\<rparr>)"

subsection \<open>Binary floating point\<close>

text \<open>
  A Python \<^verbatim>\<open>float\<close> is an IEEE 754 binary64 value, an element of a \<^verbatim>\<open>float32\<close> array
  a binary32 value. A finite value of either format is a real number, and an arithmetic
  operation returns the exact result rounded to the nearest value of the format, a tie
  going to the value with the even significand.

  \<open>float_exponent x\<close> is the exponent of a positive \<open>x\<close>, the integer \<open>e\<close> with
  \<open>2 ^ e \<le> x < 2 ^ (e + 1)\<close>, read off the bit length of an integer.
\<close>

definition float_exponent :: "real \<Rightarrow> int" where
  "float_exponent x =
     (if 1 \<le> x then bitlen \<lfloor>x\<rfloor> - 1 else - bitlen (\<lceil>1 / x\<rceil> - 1))"

text \<open>
  Rounding to a format of \<open>p\<close> significant bits whose least normal exponent is
  \<open>emin\<close>: the values of the format near \<open>x\<close> are the multiples of
  \<open>2 ^ (e - p + 1)\<close>, where \<open>e\<close> is the exponent of \<open>x\<close>, and below \<open>2 ^ emin\<close>
  the spacing stays that of \<open>emin\<close> (subnormal values). The exponent has no upper end
  here: a result beyond the largest finite value of the format, which the machine
  replaces by an infinity, is outside this model.
\<close>

definition round_binary :: "nat \<Rightarrow> int \<Rightarrow> real \<Rightarrow> real" where
  "round_binary p emin x =
     (if x = 0 then 0
      else
        let q = max (float_exponent \<bar>x\<bar>) emin - (int p - 1)
        in real_of_int (np_round (x / 2 powi q)) * 2 powi q)"

definition binary32 :: "real \<Rightarrow> real" where
  "binary32 = round_binary 24 (- 126)"

definition binary64 :: "real \<Rightarrow> real" where
  "binary64 = round_binary 53 (- 1022)"

subsection \<open>FrameScheduler in binary64\<close>

text \<open>
  \<^verbatim>\<open>/\<close> on two Python integers: the exact quotient rounded once to binary64, whatever
  the size of the operands.
\<close>

definition truediv :: "int \<Rightarrow> int \<Rightarrow> real" where
  "truediv a b = binary64 (real_of_int a / real_of_int b)"

text \<open>
  \<^verbatim>\<open>next_tile_uv\<close> with the two quotients as Python computes them. The integers are
  those of \<open>next_tile_uv\<close> above, where the quotients are the exact ones.
\<close>

definition next_tile_uv_float :: "FrameScheduler \<Rightarrow> error + ((real \<times> real) \<times> FrameScheduler)" where
  "next_tile_uv_float s =
     (if modulus s = 0 then Inl ZeroDivisionError
      else
        let fib_n = cur s;
            s' = s\<lparr>prev := cur s, cur := (prev s + cur s) mod modulus s\<rparr>;
            u = truediv (fib_n mod modulus s') (modulus s');
            v = truediv (cur s' mod modulus s') (modulus s')
        in Inr ((u, v), s'))"

fun next_tile_uv_float_n :: "nat \<Rightarrow> FrameScheduler \<Rightarrow> error + ((real \<times> real) list \<times> FrameScheduler)" where
  "next_tile_uv_float_n 0 s = Inr ([], s)"
| "next_tile_uv_float_n (Suc n) s =
     (case next_tile_uv_float s of
        Inl e \<Rightarrow> Inl e
      | Inr (c, s') \<Rightarrow>
          (case next_tile_uv_float_n n s' of
             Inl e \<Rightarrow> Inl e
           | Inr (cs, s'') \<Rightarrow> Inr (c # cs, s'')))"

subsection \<open>GoldenRatioCompressor in binary32\<close>

text \<open>
  \<^verbatim>\<open>data * self.PHI * 1000.0\<close> on an element \<open>x\<close> of a \<^verbatim>\<open>float32\<close> array, as
  \<^verbatim>\<open>run_pipeline\<close> passes one: NumPy converts the Python float \<^verbatim>\<open>PHI\<close> to binary32 and
  multiplies in binary32, then multiplies the product by 1000 (a binary32 value) in
  binary32 again. The elements are finite binary32 values; NaN and the infinities are
  outside this model.
\<close>

definition scaled_float32 :: "real \<Rightarrow> real" where
  "scaled_float32 x = binary32 (binary32 (x * binary32 PHI) * 1000)"

text \<open>
  \<^verbatim>\<open>astype(np.int16)\<close> on the rounded binary32 value is a C conversion with no range
  check. While the integer fits 32 bits its low 16 bits are kept, as in
  \<open>astype_int16\<close>; what is stored for an integer beyond that is left open by C, and
  by this definition. A product beyond the largest finite binary32 value, an infinity
  on the machine, has such an integer here, so its cell is left open as well.
\<close>

definition float32_astype_int16 :: "int \<Rightarrow> 16 word" where
  "float32_astype_int16 k =
     (if - 2147483648 \<le> k \<and> k \<le> 2147483647 then astype_int16 k else undefined k)"

definition compress_float32 :: "real list \<Rightarrow> 8 word list" where
  "compress_float32 data =
     concat (map (\<lambda>x. int16_tobytes (float32_astype_int16 (np_round (scaled_float32 x)))) data)"

text \<open>
  \<^verbatim>\<open>arr.astype(np.float32) / (self.PHI * 1000.0)\<close>: the divisor is computed by Python
  in binary64, NumPy converts it to binary32 and divides each cell (every 16-bit integer
  is a binary32 value) in binary32.
\<close>

definition decompress_float32 :: "8 word list \<Rightarrow> int \<Rightarrow> error + real list" where
  "decompress_float32 blob len =
     (case frombuffer_int16 blob len of
        Inl e \<Rightarrow> Inl e
      | Inr arr \<Rightarrow>
          Inr (map (\<lambda>c. binary32 (real_of_int (sint c) / binary32 (binary64 (PHI * 1000)))) arr))"

section \<open>Properties\<close>

subsection \<open>FrameScheduler\<close>

lemma next_tile_uv_modulus: "next_tile_uv s = Inr (c, s') \<Longrightarrow> modulus s' = modulus s"
  by (auto simp: next_tile_uv_def Let_def split: if_splits)

lemma next_tile_uv_total: "modulus s \<noteq> 0 \<Longrightarrow> \<exists>c s'. next_tile_uv s = Inr (c, s')"
  by (simp add: next_tile_uv_def Let_def)

lemma next_tile_uv_reset: "next_tile_uv s = Inr (c, s') \<Longrightarrow> reset s' = reset s"
  by (auto simp: next_tile_uv_def reset_def Let_def split: if_splits)

lemma next_tile_uv_n_modulus: "next_tile_uv_n n s = Inr (cs, s') \<Longrightarrow> modulus s' = modulus s"
proof (induction n arbitrary: s cs s')
  case 0
  then show ?case by simp
next
  case (Suc n)
  then show ?case
    by (auto split: sum.splits prod.splits dest: next_tile_uv_modulus)
qed

lemma next_tile_uv_n_reset: "next_tile_uv_n n s = Inr (cs, s') \<Longrightarrow> reset s' = reset s"
proof (induction n arbitrary: s cs s')
  case 0
  then show ?case by simp
next
  case (Suc n)
  then show ?case
    by (auto split: sum.splits prod.splits dest: next_tile_uv_reset)
qed

lemma next_tile_uv_n_length: "next_tile_uv_n n s = Inr (cs, s') \<Longrightarrow> length cs = n"
  by (induction n arbitrary: s cs s') (auto split: sum.splits prod.splits)

lemma next_tile_uv_n_total: "modulus s \<noteq> 0 \<Longrightarrow> \<exists>cs s'. next_tile_uv_n n s = Inr (cs, s')"
proof (induction n arbitrary: s)
  case 0
  then show ?case by simp
next
  case (Suc n)
  from next_tile_uv_total [OF Suc.prems]
  obtain c s1 where step: "next_tile_uv s = Inr (c, s1)" by blast
  then have "modulus s1 \<noteq> 0"
    using Suc.prems next_tile_uv_modulus by metis
  from Suc.IH [OF this]
  obtain cs s2 where "next_tile_uv_n n s1 = Inr (cs, s2)" by blast
  with step show ?case by simp
qed

lemma reset_init: "reset g = init_scheduler (modulus g)"
  by (simp add: reset_def init_scheduler_def)

lemma reset_reset: "reset (reset g) = reset g"
  by (simp add: reset_def)

lemma next_tile_uv_shared:
  "next_tile_uv s = Inr (c1, s1) \<Longrightarrow> next_tile_uv s1 = Inr (c2, s2) \<Longrightarrow> fst c2 = snd c1"
  by (auto simp: next_tile_uv_def Let_def split: if_splits)

lemma next_tile_uv_n_shared:
  "next_tile_uv_n n s = Inr (cs, s') \<Longrightarrow> Suc i < n \<Longrightarrow> fst (cs ! Suc i) = snd (cs ! i)"
proof (induction n arbitrary: s cs s' i)
  case 0
  then show ?case by simp
next
  case (Suc n)
  from Suc.prems(1) obtain c s1 cs1 where step: "next_tile_uv s = Inr (c, s1)"
    and rest: "next_tile_uv_n n s1 = Inr (cs1, s')" and cs: "cs = c # cs1"
    by (auto split: sum.splits prod.splits)
  show ?case
  proof (cases i)
    case 0
    with Suc.prems(2) obtain m where n: "n = Suc m" by (cases n) auto
    from rest n obtain c2 s2 cs2 where step2: "next_tile_uv s1 = Inr (c2, s2)"
      and cs1: "cs1 = c2 # cs2"
      by (auto split: sum.splits prod.splits)
    from next_tile_uv_shared [OF step step2] cs cs1 0 show ?thesis by simp
  next
    case (Suc j)
    with Suc.prems(2) have "Suc j < n" by simp
    from Suc.IH [OF rest this] cs Suc show ?thesis by simp
  qed
qed

text \<open>
  Claim C3, as stated, at its own input: with modulus 100 the first call on a freshly
  reset scheduler returns \<open>(0.01, 0.01)\<close>, not \<open>(0.01, 0.02)\<close>. Both components of
  the first coordinate come from the Fibonacci terms 1 and 1.
\<close>

theorem first_tile_uv_mod_100:
  "next_tile_uv (reset (init_scheduler 100))
     = Inr ((1 / 100, 1 / 100), \<lparr>prev = 1, cur = 1, modulus = 100\<rparr>)
   \<and> map_sum id fst (next_tile_uv (reset (init_scheduler 100))) \<noteq> Inr (1 / 100, 2 / 100)"
  by (simp add: next_tile_uv_def reset_def init_scheduler_def Let_def)

text \<open>
  Claim C3, amended. With modulus 100, calls 1 to 5 on a freshly reset scheduler return
  \<open>(0.01, 0.01)\<close>, \<open>(0.01, 0.02)\<close>, \<open>(0.02, 0.03)\<close>, \<open>(0.03, 0.05)\<close> and
  \<open>(0.05, 0.08)\<close>: the consecutive pairs of the Fibonacci terms 1, 1, 2, 3, 5, 8
  divided by 100.
\<close>

theorem five_tiles_uv_mod_100:
  "map_sum id fst (next_tile_uv_n 5 (reset (init_scheduler 100))) =
     Inr [(1 / 100, 1 / 100), (1 / 100, 2 / 100), (2 / 100, 3 / 100),
          (3 / 100, 5 / 100), (5 / 100, 8 / 100)]"
  by (simp add: eval_nat_numeral next_tile_uv_def reset_def init_scheduler_def Let_def)

text \<open>
  Claim C4. For a modulus of at least 2 and every \<open>n\<close>, \<open>n\<close> calls after a reset
  return without an exception; resetting the scheduler they leave behind and calling
  \<open>n\<close> times again returns the same coordinates; and these are the coordinates a new
  scheduler of the same modulus returns, whatever the state of the scheduler was before
  the reset: the sequence depends on the modulus and \<open>n\<close> alone.
\<close>

theorem reset_next_deterministic:
  assumes "2 \<le> modulus g"
  shows "\<exists>cs g1 g2. next_tile_uv_n n (reset g) = Inr (cs, g1)
           \<and> next_tile_uv_n n (reset g1) = Inr (cs, g2)
           \<and> map_sum id fst (next_tile_uv_n n (init_scheduler (modulus g))) = Inr cs"
proof -
  from assms have "modulus (reset g) \<noteq> 0" by (simp add: reset_def)
  from next_tile_uv_n_total [OF this]
  obtain cs g1 where run: "next_tile_uv_n n (reset g) = Inr (cs, g1)" by blast
  from next_tile_uv_n_reset [OF run] have "reset g1 = reset g" by (simp add: reset_reset)
  with run have "next_tile_uv_n n (reset g1) = Inr (cs, g1)" by simp
  moreover from run
  have "map_sum id fst (next_tile_uv_n n (init_scheduler (modulus g))) = Inr cs"
    by (simp add: reset_init [symmetric])
  ultimately show ?thesis using run by blast
qed

theorem reset_next_deterministic_witness:
  "2 \<le> modulus \<lparr>prev = 5, cur = 8, modulus = 100\<rparr>
   \<and> (\<exists>cs g1 g2. next_tile_uv_n 3 (reset \<lparr>prev = 5, cur = 8, modulus = 100\<rparr>) = Inr (cs, g1)
        \<and> next_tile_uv_n 3 (reset g1) = Inr (cs, g2)
        \<and> map_sum id fst
            (next_tile_uv_n 3 (init_scheduler (modulus \<lparr>prev = 5, cur = 8, modulus = 100\<rparr>)))
          = Inr cs)"
  using reset_next_deterministic [of "\<lparr>prev = 5, cur = 8, modulus = 100\<rparr>" 3] by simp

text \<open>
  Claim C10. For a modulus of at least 2, in the coordinates of \<open>n\<close> calls on a freshly
  reset scheduler the \<open>u\<close> of each call after the first is the \<open>v\<close> of the call
  before it.
\<close>

theorem consecutive_tiles_share_coordinate:
  assumes "2 \<le> modulus g"
  shows "\<exists>cs g'. next_tile_uv_n n (reset g) = Inr (cs, g') \<and> length cs = n
           \<and> (\<forall>i. Suc i < n \<longrightarrow> fst (cs ! Suc i) = snd (cs ! i))"
proof -
  from assms have "modulus (reset g) \<noteq> 0" by (simp add: reset_def)
  from next_tile_uv_n_total [OF this]
  obtain cs g' where run: "next_tile_uv_n n (reset g) = Inr (cs, g')" by blast
  have "\<forall>i. Suc i < n \<longrightarrow> fst (cs ! Suc i) = snd (cs ! i)"
    using next_tile_uv_n_shared [OF run] by blast
  with run next_tile_uv_n_length [OF run] show ?thesis by blast
qed

theorem consecutive_tiles_share_coordinate_witness:
  "2 \<le> modulus (init_scheduler 7)
   \<and> (\<exists>cs g'. next_tile_uv_n 6 (reset (init_scheduler 7)) = Inr (cs, g') \<and> length cs = 6
        \<and> (\<forall>i. Suc i < 6 \<longrightarrow> fst (cs ! Suc i) = snd (cs ! i)))"
  using consecutive_tiles_share_coordinate [of "init_scheduler 7" 6]
  by (simp add: init_scheduler_def)

subsection \<open>GoldenRatioCompressor\<close>

lemma PHI_pos: "0 < PHI"
  by (simp add: PHI_def)

lemma word_cat_bytes:
  "word_cat (ucast (drop_bit 8 w) :: 8 word) (ucast w :: 8 word) = (w :: 16 word)"
  by (rule bit_word_eqI) (auto simp: bit_simps)

lemma int16_cells_tobytes: "int16_cells (int16_tobytes w @ rest) = w # int16_cells rest"
  by (simp add: int16_tobytes_def word_cat_bytes)

lemma int16_cells_compress:
  "int16_cells (compress xs) = map (\<lambda>x. astype_int16 (np_round (x * PHI * 1000))) xs"
  by (induction xs) (simp_all add: compress_def int16_cells_tobytes)

lemma length_compress: "length (compress xs) = 2 * length xs"
  by (induction xs) (simp_all add: compress_def int16_tobytes_def)

lemma length_int16_cells: "length (int16_cells blob) = length blob div 2"
  by (induction blob rule: int16_cells.induct) simp_all

lemma sint_astype_int16_wrap: "sint (astype_int16 k) = (k + 32768) mod 65536 - 32768"
  by (simp add: astype_int16_def sint_sbintrunc' signed_take_bit_eq_take_bit_shift
      take_bit_eq_mod)

lemma sint_astype_int16: "- 32768 \<le> k \<Longrightarrow> k \<le> 32767 \<Longrightarrow> sint (astype_int16 k) = k"
  by (simp add: sint_astype_int16_wrap)

lemma np_round_error: "\<bar>real_of_int (np_round y) - y\<bar> \<le> 1 / 2"
  by (auto simp: np_round_def Let_def)

lemma np_round_lower: "real_of_int a \<le> y \<Longrightarrow> a \<le> np_round y"
  by (auto simp: np_round_def Let_def) linarith+

lemma np_round_upper: "y \<le> real_of_int b \<Longrightarrow> np_round y \<le> b"
  by (auto simp: np_round_def Let_def) linarith+

lemma decompress_compress:
  "decompress (compress xs) (int (length xs)) =
     Inr (map (\<lambda>x. real_of_int (sint (astype_int16 (np_round (x * PHI * 1000))))
                     / (PHI * 1000)) xs)"
  by (simp add: decompress_def frombuffer_int16_def length_compress int16_cells_compress
      comp_def)

lemma roundtrip_cell_error:
  assumes "- 32768 \<le> x * PHI * 1000" and "x * PHI * 1000 \<le> 32767"
  shows "\<bar>x - real_of_int (sint (astype_int16 (np_round (x * PHI * 1000)))) / (PHI * 1000)\<bar>
           \<le> (1 / 2) / (PHI * 1000)"
proof -
  define y where "y = x * PHI * 1000"
  define r where "r = np_round y"
  from assms have lo: "real_of_int (- 32768) \<le> y" and hi: "y \<le> real_of_int 32767"
    by (simp_all add: y_def)
  have cell: "sint (astype_int16 r) = r"
    unfolding r_def using np_round_lower [OF lo] np_round_upper [OF hi]
    by (simp add: sint_astype_int16)
  have xy: "x = y / (PHI * 1000)"
    using PHI_pos by (simp add: y_def)
  have "x - real_of_int r / (PHI * 1000) = (y - real_of_int r) / (PHI * 1000)"
    by (subst xy) (rule diff_divide_distrib [symmetric])
  then have "\<bar>x - real_of_int r / (PHI * 1000)\<bar> = \<bar>y - real_of_int r\<bar> / (PHI * 1000)"
    using PHI_pos by (simp only: abs_divide)
  also have "\<dots> \<le> (1 / 2) / (PHI * 1000)"
  proof (rule divide_right_mono)
    show "\<bar>y - real_of_int r\<bar> \<le> 1 / 2"
      using np_round_error [of y] by (simp add: r_def abs_minus_commute)
    show "0 \<le> PHI * 1000" using PHI_pos by simp
  qed
  finally show ?thesis by (simp only: cell y_def [symmetric] r_def [symmetric])
qed

lemma quantization_step_small: "(1 / 2) / (PHI * 1000) \<le> 1 / 1000"
  by (simp add: PHI_def)

lemma allclose_roundtrip:
  assumes "\<forall>x \<in> set xs. - 32768 \<le> x * PHI * 1000 \<and> x * PHI * 1000 \<le> 32767"
  shows "allclose xs (map (\<lambda>x. real_of_int (sint (astype_int16 (np_round (x * PHI * 1000))))
                     / (PHI * 1000)) xs)"
  unfolding allclose_def list_all2_map2
proof (rule list_all2_all_nthI)
  show "length xs = length xs" by simp
next
  fix i assume "i < length xs"
  then have "xs ! i \<in> set xs" by simp
  with assms have "- 32768 \<le> xs ! i * PHI * 1000" and "xs ! i * PHI * 1000 \<le> 32767"
    by blast+
  from roundtrip_cell_error [OF this]
  have "\<bar>xs ! i - real_of_int (sint (astype_int16 (np_round (xs ! i * PHI * 1000)))) / (PHI * 1000)\<bar>
          \<le> 1 / 1000"
    using quantization_step_small by (rule order_trans)
  moreover have "0 \<le> 1 / 100000 * \<bar>real_of_int (sint (astype_int16 (np_round (xs ! i * PHI * 1000)))) / (PHI * 1000)\<bar>"
    by simp
  ultimately show "\<bar>xs ! i - real_of_int (sint (astype_int16 (np_round (xs ! i * PHI * 1000)))) / (PHI * 1000)\<bar>
          \<le> 1 / 1000 + 1 / 100000 * \<bar>real_of_int (sint (astype_int16 (np_round (xs ! i * PHI * 1000)))) / (PHI * 1000)\<bar>"
    by linarith
qed

text \<open>
  Claim C6, as stated, at a blob of four bytes and a declared count of one: the length
  is not twice the count, and \<open>decompress\<close> succeeds, reading the first cell and
  ignoring the other two bytes.
\<close>

theorem decompress_long_blob:
  "int (length [0, 0, 0, 0 :: 8 word]) \<noteq> 2 * 1 \<and> decompress [0, 0, 0, 0] 1 = Inr [0]"
  by (simp add: decompress_def frombuffer_int16_def PHI_def)

text \<open>
  Claim C6, amended. For a count that is not negative, \<open>decompress\<close> fails if and only
  if the blob is shorter than twice the count; otherwise it succeeds and returns
  exactly \<open>count\<close> elements, also from a blob that is longer.
\<close>

theorem decompress_fails_iff_short:
  assumes "0 \<le> len"
  shows "((\<exists>e. decompress blob len = Inl e) \<longleftrightarrow> int (length blob) < 2 * len)
         \<and> (\<forall>ys. decompress blob len = Inr ys \<longrightarrow> length ys = nat len)"
  using assms
  by (auto simp: decompress_def frombuffer_int16_def length_int16_cells split: sum.splits if_splits)

theorem decompress_fails_iff_short_witness:
  "(0::int) \<le> 1
   \<and> ((\<exists>e. decompress [0, 0, 0, 0] 1 = Inl e) \<longleftrightarrow> int (length [0, 0, 0, 0 :: 8 word]) < 2 * 1)
   \<and> ((\<exists>e. decompress [0] 1 = Inl e) \<longleftrightarrow> int (length [0 :: 8 word]) < 2 * 1)"
  using decompress_fails_iff_short [of 1 "[0, 0, 0, 0]"] decompress_fails_iff_short [of 1 "[0]"]
  by simp

subsection \<open>ResourceManager\<close>

lemma used_add_usage: "used m \<le> used (add_usage t m)"
  by (simp add: add_usage_def L_PER_DEGREE_def Let_def)

lemma water_limit_add_usage: "water_limit (add_usage t m) = water_limit m"
  by (simp add: add_usage_def Let_def)

text \<open>
  Claim C7. Whatever the sensors report (a reading of any sign, no reading at all, or
  no sensor interface, where the 35 degree fallback is used), \<open>used\<close> after \<open>update\<close>
  is at least \<open>used\<close> before.
\<close>

theorem update_used_monotone: "used m \<le> used (update src m)"
  by (simp add: update_def used_add_usage split: sensors.split option.split)

lemma used_fold_update: "used m \<le> used (fold update srcs m)"
proof (induction srcs arbitrary: m)
  case Nil
  then show ?case by simp
next
  case (Cons src srcs)
  have "used m \<le> used (update src m)"
    by (simp add: update_def used_add_usage split: sensors.split option.split)
  also have "\<dots> \<le> used (fold update srcs (update src m))" by (rule Cons.IH)
  finally show ?case by simp
qed

lemma water_limit_update: "water_limit (update src m) = water_limit m"
  by (simp add: update_def water_limit_add_usage split: sensors.split option.split)

lemma water_limit_fold_update: "water_limit (fold update srcs m) = water_limit m"
  by (induction srcs arbitrary: m) (simp_all add: water_limit_update)

text \<open>
  Claim C8. Once \<open>gate\<close> raises on a manager, it raises again on the same manager
  after any number of further updates (none included): \<open>gate\<close> changes nothing,
  \<open>update\<close> never lowers \<open>used\<close>, and nothing changes the limit.
\<close>

theorem gate_exceeded_persists:
  assumes "gate m = Inl e"
  shows "\<exists>u. gate (fold update srcs m) = Inl (RuntimeError u (water_limit m))"
proof -
  from assms have "water_limit m \<le> used m"
    by (simp add: gate_def split: if_splits)
  with used_fold_update [of m srcs] have "water_limit m \<le> used (fold update srcs m)" by simp
  then show ?thesis by (simp add: gate_def water_limit_fold_update)
qed

theorem gate_exceeded_persists_witness:
  "gate \<lparr>water_limit = 1 / 1000, used = 1 / 1000\<rparr> = Inl (RuntimeError (1 / 1000) (1 / 1000))
   \<and> (\<exists>u. gate (fold update [NotCallable, SensorData [(''cpu'', [50])]] \<lparr>water_limit = 1 / 1000, used = 1 / 1000\<rparr>)
          = Inl (RuntimeError u (water_limit \<lparr>water_limit = 1 / 1000, used = 1 / 1000\<rparr>)))"
proof -
  have h: "gate \<lparr>water_limit = 1 / 1000, used = 1 / 1000\<rparr> = Inl (RuntimeError (1 / 1000) (1 / 1000))"
    by (simp add: gate_def)
  from h gate_exceeded_persists [OF h] show ?thesis by blast
qed

subsection \<open>run_pipeline\<close>

lemma run_tiles_append:
  "run_tiles world (xs @ ys) st =
     (case run_tiles world xs st of
        (Completed, st') \<Rightarrow> run_tiles world ys st'
      | (Aborted e, st') \<Rightarrow> (Aborted e, st'))"
  by (induction xs arbitrary: st) (auto split: prod.splits option.splits run_state.splits)

lemma next_tile_uv_error: "next_tile_uv s = Inl e \<Longrightarrow> e = ZeroDivisionError"
  by (simp add: next_tile_uv_def Let_def split: if_splits)

lemma process_tile_outputs:
  assumes run: "process_tile w idx st = (r, st')"
    and ok: "r = None \<or> (\<exists>u l. r = Some (RuntimeError u l))"
  shows "written st' = written st @ [tile_png idx, final_png idx]
         \<and> map fst (started st') = map fst (started st) @ [idx]"
proof (cases "next_tile_uv (scheduler st)")
  case (Inl e)
  with run have "r = Some e" by (simp add: process_tile_def)
  with next_tile_uv_error [OF Inl] ok show ?thesis by auto
next
  case (Inr p)
  obtain u v sch where p: "p = ((u, v), sch)" by (cases p) auto
  from run ok show ?thesis
    unfolding process_tile_def Inr p
    by (auto simp: decompress_compress Let_def split: if_splits sum.splits)
qed

lemma run_tiles_completed_outputs:
  "run_tiles world idxs st = (Completed, st') \<Longrightarrow>
     written st' = written st @ concat (map (\<lambda>i. [tile_png i, final_png i]) idxs)
     \<and> map fst (started st') = map fst (started st) @ idxs"
proof (induction idxs arbitrary: st)
  case Nil
  then show ?case by simp
next
  case (Cons idx idxs)
  from Cons.prems obtain st1 where step: "process_tile (world idx) idx st = (None, st1)"
    and rest: "run_tiles world idxs st1 = (Completed, st')"
    by (auto split: prod.splits option.splits)
  from process_tile_outputs [OF step] Cons.IH [OF rest] show ?case by simp
qed

lemma run_pipeline_num_tiles:
  "run_pipeline (cfg\<lparr>cfg_num_tiles := Some n\<rparr>) world =
     run_tiles world [0..<nat n]
       \<lparr>scheduler = reset (init_scheduler (case cfg_fib_modulus cfg of None \<Rightarrow> 100000 | Some m \<Rightarrow> m)),
        manager = init_manager (cfg_water_limit cfg), written = [], started = []\<rparr>"
  by (simp add: run_pipeline_def Let_def)

text \<open>
  Claim C9. In a run of \<open>n\<close> tiles, when tiles \<open>0\<close> to \<open>k - 1\<close> ran to their end
  and the gate raises in the iteration of tile \<open>k\<close>, the run is aborted with that
  error in the state that iteration left: the files written are exactly the tile and
  final files of tiles \<open>0\<close> to \<open>k\<close>, in order, and only the tiles \<open>0\<close> to \<open>k\<close>
  were started, whatever \<open>n\<close> is and whatever the later tiles would have met. With
  three tiles and the budget exceeded in the first iteration (the tile logged as 1 of
  3), one pair of files is written.
\<close>

theorem gate_abort_stops_pipeline:
  assumes tiles: "cfg_num_tiles cfg = Some n" and k: "int k < n"
    and before: "run_pipeline (cfg\<lparr>cfg_num_tiles := Some (int k)\<rparr>) world = (Completed, st)"
    and gate_k: "process_tile (world k) k st = (Some (RuntimeError u l), st')"
  shows "run_pipeline cfg world = (Aborted (RuntimeError u l), st')
         \<and> written st' = concat (map (\<lambda>i. [tile_png i, final_png i]) [0..<Suc k])
         \<and> map fst (started st') = [0..<Suc k]"
proof -
  let ?st0 = "\<lparr>scheduler = reset (init_scheduler (case cfg_fib_modulus cfg of None \<Rightarrow> 100000 | Some m \<Rightarrow> m)),
        manager = init_manager (cfg_water_limit cfg), written = [], started = []\<rparr>"
  from tiles have cfg: "cfg = cfg\<lparr>cfg_num_tiles := Some n\<rparr>" by simp
  from before have first: "run_tiles world [0..<k] ?st0 = (Completed, st)"
    by (simp add: run_pipeline_num_tiles)
  from k have kn: "k < nat n" by simp
  then have "[0..<nat n] = [0..<k] @ [k..<nat n]"
    using upt_add_eq_append [of 0 k "nat n - k"] by simp
  moreover from kn have "[k..<nat n] = k # [Suc k..<nat n]"
    by (rule upt_conv_Cons)
  ultimately have split: "[0..<nat n] = [0..<k] @ k # [Suc k..<nat n]"
    by simp
  have "run_pipeline cfg world = run_tiles world [0..<nat n] ?st0"
    by (subst cfg) (rule run_pipeline_num_tiles)
  also have "\<dots> = run_tiles world (k # [Suc k..<nat n]) st"
    by (simp only: split run_tiles_append first) simp
  also have "\<dots> = (Aborted (RuntimeError u l), st')"
    by (simp add: gate_k)
  finally have aborted: "run_pipeline cfg world = (Aborted (RuntimeError u l), st')" .
  from run_tiles_completed_outputs [OF first]
  have "written st = concat (map (\<lambda>i. [tile_png i, final_png i]) [0..<k])"
    and "map fst (started st) = [0..<k]" by simp_all
  with process_tile_outputs [OF gate_k] aborted show ?thesis by simp
qed


theorem gate_abort_stops_pipeline_witness:
  "cfg_num_tiles \<lparr>cfg_fib_modulus = Some 100, cfg_water_limit = 1 / 5000, cfg_num_tiles = Some 3\<rparr>
     = Some 3
   \<and> int 0 < 3
   \<and> run_pipeline
        (\<lparr>cfg_fib_modulus = Some 100, cfg_water_limit = 1 / 5000, cfg_num_tiles = Some 3\<rparr>
           \<lparr>cfg_num_tiles := Some (int 0)\<rparr>)
        (\<lambda>_. \<lparr>geometry_delta = [1 / 10, 7 / 10, 5 / 100, 0], supersample_ok = True,
               temps = NotCallable\<rparr>)
      = (Completed,
         \<lparr>scheduler = \<lparr>prev = 0, cur = 1, modulus = 100\<rparr>,
          manager = \<lparr>water_limit = 1 / 5000, used = 0\<rparr>, written = [], started = []\<rparr>)
   \<and> process_tile
        \<lparr>geometry_delta = [1 / 10, 7 / 10, 5 / 100, 0], supersample_ok = True,
         temps = NotCallable\<rparr> 0
        \<lparr>scheduler = \<lparr>prev = 0, cur = 1, modulus = 100\<rparr>,
         manager = \<lparr>water_limit = 1 / 5000, used = 0\<rparr>, written = [], started = []\<rparr>
      = (Some (RuntimeError (1 / 4000) (1 / 5000)),
         \<lparr>scheduler = \<lparr>prev = 1, cur = 1, modulus = 100\<rparr>,
          manager = \<lparr>water_limit = 1 / 5000, used = 1 / 4000\<rparr>,
          written = [tile_png 0, final_png 0], started = [(0, 1 / 100, 1 / 100)]\<rparr>)
   \<and> run_pipeline
        \<lparr>cfg_fib_modulus = Some 100, cfg_water_limit = 1 / 5000, cfg_num_tiles = Some 3\<rparr>
        (\<lambda>_. \<lparr>geometry_delta = [1 / 10, 7 / 10, 5 / 100, 0], supersample_ok = True,
               temps = NotCallable\<rparr>)
      = (Aborted (RuntimeError (1 / 4000) (1 / 5000)),
         \<lparr>scheduler = \<lparr>prev = 1, cur = 1, modulus = 100\<rparr>,
          manager = \<lparr>water_limit = 1 / 5000, used = 1 / 4000\<rparr>,
          written = [tile_png 0, final_png 0], started = [(0, 1 / 100, 1 / 100)]\<rparr>)"
proof -
  let ?cfg = "\<lparr>cfg_fib_modulus = Some 100, cfg_water_limit = 1 / 5000, cfg_num_tiles = Some 3\<rparr>"
  let ?d = "[1 / 10, 7 / 10, 5 / 100, 0 :: real]"
  let ?w = "\<lparr>geometry_delta = ?d, supersample_ok = True, temps = NotCallable\<rparr>"
  let ?st = "\<lparr>scheduler = \<lparr>prev = 0, cur = 1, modulus = 100\<rparr>,
          manager = \<lparr>water_limit = 1 / 5000, used = 0\<rparr>, written = [], started = []\<rparr>"
  let ?st' = "\<lparr>scheduler = \<lparr>prev = 1, cur = 1, modulus = 100\<rparr>,
          manager = \<lparr>water_limit = 1 / 5000, used = 1 / 4000\<rparr>,
          written = [tile_png 0, final_png 0], started = [(0 :: nat, 1 / 100 :: real, 1 / 100 :: real)]\<rparr>"
  have h1: "cfg_num_tiles ?cfg = Some 3" by simp
  have h2: "int 0 < 3" by simp
  have h3: "run_pipeline (?cfg\<lparr>cfg_num_tiles := Some (int 0)\<rparr>) (\<lambda>_. ?w) = (Completed, ?st)"
    by (simp add: run_pipeline_def init_scheduler_def init_manager_def reset_def)
  have close: "allclose ?d (map (\<lambda>x. real_of_int (sint (astype_int16 (np_round (x * PHI * 1000))))
                     / (PHI * 1000)) ?d)"
    by (rule allclose_roundtrip) (simp add: PHI_def)
  have step: "next_tile_uv \<lparr>prev = 0, cur = 1, modulus = 100\<rparr>
      = Inr ((1 / 100, 1 / 100), \<lparr>prev = 1, cur = 1, modulus = 100\<rparr>)"
    by (simp add: next_tile_uv_def Let_def)
  have h4: "process_tile ((\<lambda>_. ?w) 0) 0 ?st = (Some (RuntimeError (1 / 4000) (1 / 5000)), ?st')"
    using close decompress_compress [of ?d]
    by (simp add: process_tile_def step Let_def update_def add_usage_def TEMP_BASE_def
        L_PER_DEGREE_def gate_def)
  from h1 h2 h3 h4 gate_abort_stops_pipeline [OF h1 h2 h3 h4] show ?thesis
    by simp
qed

subsection \<open>Binary floating point\<close>

lemma np_round_below_half: "y < real_of_int b + 1 / 2 \<Longrightarrow> np_round y \<le> b"
  by (auto simp: np_round_def Let_def) linarith+

lemma np_round_above_half: "real_of_int a - 1 / 2 < y \<Longrightarrow> a \<le> np_round y"
  by (auto simp: np_round_def Let_def) linarith+

lemma float_exponent_lower:
  assumes "0 < x"
  shows "2 powi float_exponent x \<le> x"
proof (cases "1 \<le> x")
  case True
  define n where "n = \<lfloor>x\<rfloor>"
  from True have n: "0 < n" by (simp add: n_def)
  from bitlen_bounds [OF n] have b: "2 ^ nat (bitlen n - 1) \<le> n" by simp
  from n have "1 \<le> bitlen n" by (auto simp: bitlen_alt_def)
  then have "2 powi (bitlen n - 1) = (2::real) ^ nat (bitlen n - 1)"
    by (simp add: power_int_def)
  also have "\<dots> = real_of_int (2 ^ nat (bitlen n - 1))" by simp
  also have "\<dots> \<le> real_of_int n" using b by (simp only: of_int_le_iff)
  also have "\<dots> \<le> x" by (simp add: n_def)
  finally show ?thesis using True by (simp add: float_exponent_def n_def)
next
  case False
  define y where "y = 1 / x"
  define m where "m = \<lceil>y\<rceil> - 1"
  from False assms have y: "1 < y" by (simp add: y_def)
  then have m: "0 < m" unfolding m_def by linarith
  have ym: "y \<le> real_of_int m + 1" unfolding m_def by simp
  from bitlen_bounds [OF m] have b: "m < 2 ^ nat (bitlen m)" by simp
  then have "m + 1 \<le> 2 ^ nat (bitlen m)" by simp
  then have "real_of_int (m + 1) \<le> real_of_int (2 ^ nat (bitlen m))"
    by (simp only: of_int_le_iff)
  with ym have "y \<le> 2 ^ nat (bitlen m)" by simp
  then have "1 / 2 ^ nat (bitlen m) \<le> x"
    using assms by (simp add: y_def field_simps)
  moreover have "2 powi (- bitlen m) = (1::real) / 2 ^ nat (bitlen m)"
    using bitlen_nonneg [of m] by (simp add: power_int_def field_simps)
  ultimately show ?thesis using False by (simp add: float_exponent_def m_def y_def)
qed

lemma float_exponent_upper:
  assumes "0 < x"
  shows "x < 2 powi (float_exponent x + 1)"
proof (cases "1 \<le> x")
  case True
  define n where "n = \<lfloor>x\<rfloor>"
  from True have n: "0 < n" by (simp add: n_def)
  from bitlen_bounds [OF n] have b: "n < 2 ^ nat (bitlen n)" by simp
  then have "n + 1 \<le> 2 ^ nat (bitlen n)" by simp
  then have "real_of_int (n + 1) \<le> real_of_int (2 ^ nat (bitlen n))"
    by (simp only: of_int_le_iff)
  moreover have "x < real_of_int (n + 1)" unfolding n_def by linarith
  ultimately have "x < 2 ^ nat (bitlen n)" by simp
  moreover have "2 powi (bitlen n) = (2::real) ^ nat (bitlen n)"
    using bitlen_nonneg [of n] by (simp add: power_int_def)
  ultimately show ?thesis using True by (simp add: float_exponent_def n_def)
next
  case False
  define y where "y = 1 / x"
  define m where "m = \<lceil>y\<rceil> - 1"
  from False assms have y: "1 < y" by (simp add: y_def)
  then have m: "0 < m" unfolding m_def by linarith
  have ym: "real_of_int m < y" unfolding m_def by linarith
  from bitlen_bounds [OF m] have b: "2 ^ nat (bitlen m - 1) \<le> m" by simp
  then have "real_of_int (2 ^ nat (bitlen m - 1)) \<le> real_of_int m"
    by (simp only: of_int_le_iff)
  then have "(2::real) ^ nat (bitlen m - 1) \<le> real_of_int m" by simp
  with ym have "2 ^ nat (bitlen m - 1) < y" by linarith
  then have "x < 1 / 2 ^ nat (bitlen m - 1)"
    using assms by (simp add: y_def field_simps)
  moreover from m have "1 \<le> bitlen m" by (auto simp: bitlen_alt_def)
  then have "2 powi (- bitlen m + 1) = (1::real) / 2 ^ nat (bitlen m - 1)"
    by (simp add: power_int_def field_simps nat_diff_distrib)
  ultimately show ?thesis using False by (simp add: float_exponent_def m_def y_def)
qed

lemma powi_neg: "(2::real) powi (- int n) = 1 / 2 ^ n"
  by (simp add: power_int_minus field_simps)

text \<open>The rounded value is within half a unit in the last place of the exact one.\<close>

lemma round_binary_half_ulp:
  assumes "x \<noteq> 0"
  shows "\<bar>round_binary p emin x - x\<bar>
           \<le> 2 powi (max (float_exponent \<bar>x\<bar>) emin - int p)"
proof -
  define q where "q = max (float_exponent \<bar>x\<bar>) emin - (int p - 1)"
  define P :: real where "P = 2 powi q"
  have P: "0 < P" by (simp add: P_def)
  have rb: "round_binary p emin x = real_of_int (np_round (x / P)) * P"
    using assms by (simp add: round_binary_def Let_def q_def P_def)
  have "round_binary p emin x - x = (real_of_int (np_round (x / P)) - x / P) * P"
    using P by (simp add: rb field_simps)
  then have "\<bar>round_binary p emin x - x\<bar> = \<bar>real_of_int (np_round (x / P)) - x / P\<bar> * P"
    using P by (simp add: abs_mult)
  also have "\<dots> \<le> (1 / 2) * P"
    using np_round_error [of "x / P"] P by (intro mult_right_mono) simp_all
  also have "\<dots> = 2 powi (q - 1)"
    by (simp add: P_def power_int_diff)
  also have "q - 1 = max (float_exponent \<bar>x\<bar>) emin - int p"
    by (simp add: q_def)
  finally show ?thesis .
qed

lemma round_binary_error:
  "\<bar>round_binary p emin x - x\<bar> \<le> \<bar>x\<bar> / 2 ^ p + 2 powi (emin - int p)"
proof (cases "x = 0")
  case True
  then show ?thesis by (simp add: round_binary_def)
next
  case False
  define e where "e = float_exponent \<bar>x\<bar>"
  from False have pos: "0 < \<bar>x\<bar>" by simp
  have lo: "2 powi e \<le> \<bar>x\<bar>"
    unfolding e_def by (rule float_exponent_lower [OF pos])
  have half: "\<bar>round_binary p emin x - x\<bar> \<le> 2 powi (max e emin - int p)"
    unfolding e_def by (rule round_binary_half_ulp [OF False])
  show ?thesis
  proof (cases "emin \<le> e")
    case True
    then have "2 powi (max e emin - int p) = 2 powi e / (2::real) ^ p"
      by (simp add: max_def power_int_diff)
    also have "\<dots> \<le> \<bar>x\<bar> / 2 ^ p"
      using lo by (simp add: divide_right_mono)
    finally have "2 powi (max e emin - int p) \<le> \<bar>x\<bar> / 2 ^ p" .
    moreover have "(0::real) \<le> 2 powi (emin - int p)" by simp
    ultimately show ?thesis using half by linarith
  next
    case False
    then have "max e emin = emin" by simp
    with half have "\<bar>round_binary p emin x - x\<bar> \<le> 2 powi (emin - int p)" by simp
    moreover have "0 \<le> \<bar>x\<bar> / 2 ^ p" by simp
    ultimately show ?thesis by linarith
  qed
qed

text \<open>
  For binary32 the relative error is at most \<open>2 ^ -24\<close> and the absolute error of a
  subnormal result at most \<open>2 ^ -150\<close>; both are rounded up to decimal constants.
\<close>

lemma binary32_error: "\<bar>binary32 x - x\<bar> \<le> \<bar>x\<bar> / 10000000 + 1 / 1000000000000"
proof -
  have "(2::real) powi (- 126 - int 24) = 1 / 2 ^ 150"
    using powi_neg [of 150] by simp
  with round_binary_error [of 24 "- 126" x]
  have "\<bar>binary32 x - x\<bar> \<le> \<bar>x\<bar> / 2 ^ 24 + 1 / 2 ^ 150"
    by (simp add: binary32_def)
  moreover have "\<bar>x\<bar> / 2 ^ 24 \<le> \<bar>x\<bar> / 10000000"
    by (rule divide_left_mono) simp_all
  moreover have "(1::real) / 2 ^ 150 \<le> 1 / 1000000000000" by simp
  ultimately show ?thesis by linarith
qed

lemma round_binary_nonneg:
  assumes "0 \<le> x"
  shows "0 \<le> round_binary p emin x"
proof -
  have "0 \<le> np_round (x / 2 powi q)" for q
  proof (rule np_round_lower)
    show "real_of_int 0 \<le> x / 2 powi q" using assms by simp
  qed
  then show ?thesis by (simp add: round_binary_def Let_def)
qed

text \<open>
  A value in the unit interval rounds to a binary64 value of at most 1, and to one
  below 1 when it is below \<open>1 - 2 ^ -54\<close>, the midpoint of 1 and its predecessor.
\<close>

lemma binary64_unit:
  assumes "0 \<le> x" and "x < 1"
  shows "binary64 x \<le> 1 \<and> (x < 1 - 1 / 2 ^ 54 \<longrightarrow> binary64 x < 1)"
proof (cases "x = 0")
  case True
  then show ?thesis by (simp add: binary64_def round_binary_def)
next
  case False
  with assms have pos: "0 < x" by simp
  define e where "e = float_exponent x"
  have lo: "2 powi e \<le> x" unfolding e_def by (rule float_exponent_lower [OF pos])
  have hi: "x < 2 powi (e + 1)" unfolding e_def by (rule float_exponent_upper [OF pos])
  have neg: "e < 0"
  proof (rule ccontr)
    assume "\<not> e < 0"
    then have "0 \<le> e" by simp
    then have "(1::real) \<le> 2 powi e" by (simp add: power_int_def)
    with lo assms(2) show False by simp
  qed
  show ?thesis
  proof (cases "e = - 1")
    case True
    have q: "max (float_exponent \<bar>x\<bar>) (- 1022) - (int 53 - 1) = - 53"
      using pos True by (simp add: e_def)
    have P: "(2::real) powi (- 53) = 1 / 2 ^ 53" using powi_neg [of 53] by simp
    have rb: "binary64 x = real_of_int (np_round (x * 2 ^ 53)) / 2 ^ 53"
      using False unfolding binary64_def round_binary_def Let_def q P by simp
    have "x * 2 ^ 53 \<le> real_of_int (2 ^ 53)"
      using assms(2) by simp
    then have "np_round (x * 2 ^ 53) \<le> 2 ^ 53" by (rule np_round_upper)
    then have "real_of_int (np_round (x * 2 ^ 53)) \<le> real_of_int (2 ^ 53)"
      by (simp only: of_int_le_iff)
    then have one: "binary64 x \<le> 1" by (simp add: rb)
    have "binary64 x < 1" if "x < 1 - 1 / 2 ^ 54"
    proof -
      from that have "x * 2 ^ 53 < real_of_int (2 ^ 53 - 1) + 1 / 2" by simp
      then have "np_round (x * 2 ^ 53) \<le> 2 ^ 53 - 1" by (rule np_round_below_half)
      then have "real_of_int (np_round (x * 2 ^ 53)) \<le> real_of_int (2 ^ 53 - 1)"
        by (simp only: of_int_le_iff)
      then show ?thesis by (simp add: rb)
    qed
    with one show ?thesis by blast
  next
    case False
    with neg have e2: "e + 1 \<le> - 1" by simp
    have "(2::real) powi (e + 1) \<le> 2 powi (- 1)"
      by (rule power_int_increasing [OF e2]) simp
    with hi have x2: "x < 1 / 2" by (simp add: power_int_def)
    have "\<bar>binary64 x - x\<bar> \<le> 2 powi (max e (- 1022) - int 53)"
      using round_binary_half_ulp [of x 53 "- 1022"] pos
      by (simp add: binary64_def e_def)
    also have "\<dots> \<le> 2 powi (- 2)"
      by (rule power_int_increasing) (use neg in simp_all)
    also have "\<dots> = 1 / 4" using powi_neg [of 2] by simp
    finally have "\<bar>binary64 x - x\<bar> \<le> 1 / 4" .
    with x2 show ?thesis by linarith
  qed
qed

subsection \<open>FrameScheduler in binary64\<close>

lemma truediv_unit:
  assumes "0 \<le> a" and "a < M"
  shows "0 \<le> truediv a M \<and> truediv a M \<le> 1 \<and> (M < 2 ^ 54 \<longrightarrow> truediv a M < 1)"
proof -
  define x where "x = real_of_int a / real_of_int M"
  from assms have M: "0 < real_of_int M" by simp
  from assms M have x0: "0 \<le> x" and x1: "x < 1" by (simp_all add: x_def)
  have "x < 1 - 1 / 2 ^ 54" if small: "M < 2 ^ 54"
  proof -
    from assms(2) have "a \<le> M - 1" by simp
    then have "real_of_int a \<le> real_of_int M - 1" by linarith
    then have "x \<le> (real_of_int M - 1) / real_of_int M"
      unfolding x_def using M by (simp add: divide_right_mono)
    also have "\<dots> = 1 - 1 / real_of_int M"
      using M by (simp add: field_simps)
    also have "\<dots> < 1 - 1 / 2 ^ 54"
    proof -
      from small have "real_of_int M < real_of_int (2 ^ 54)" by (simp only: of_int_less_iff)
      then have "real_of_int M < 2 ^ 54" by simp
      with M have "1 / 2 ^ 54 < 1 / real_of_int M"
        by (simp add: divide_strict_left_mono)
      then show ?thesis by simp
    qed
    finally show ?thesis .
  qed
  with binary64_unit [OF x0 x1] round_binary_nonneg [OF x0, of 53 "- 1022"]
  show ?thesis by (simp add: truediv_def x_def binary64_def)
qed

lemma next_tile_uv_float_modulus:
  "next_tile_uv_float s = Inr (c, s') \<Longrightarrow> modulus s' = modulus s"
  by (auto simp: next_tile_uv_float_def Let_def split: if_splits)

lemma next_tile_uv_float_total:
  "modulus s \<noteq> 0 \<Longrightarrow> \<exists>c s'. next_tile_uv_float s = Inr (c, s')"
  by (simp add: next_tile_uv_float_def Let_def)

lemma next_tile_uv_float_n_length:
  "next_tile_uv_float_n n s = Inr (cs, s') \<Longrightarrow> length cs = n"
  by (induction n arbitrary: s cs s') (auto split: sum.splits prod.splits)

lemma next_tile_uv_float_n_total:
  "modulus s \<noteq> 0 \<Longrightarrow> \<exists>cs s'. next_tile_uv_float_n n s = Inr (cs, s')"
proof (induction n arbitrary: s)
  case 0
  then show ?case by simp
next
  case (Suc n)
  from next_tile_uv_float_total [OF Suc.prems]
  obtain c s1 where step: "next_tile_uv_float s = Inr (c, s1)" by blast
  then have "modulus s1 \<noteq> 0"
    using Suc.prems next_tile_uv_float_modulus by metis
  from Suc.IH [OF this]
  obtain cs s2 where "next_tile_uv_float_n n s1 = Inr (cs, s2)" by blast
  with step show ?case by simp
qed

lemma next_tile_uv_float_unit:
  assumes "0 < modulus s" and "next_tile_uv_float s = Inr ((u, v), s')"
  shows "0 \<le> u \<and> u \<le> 1 \<and> 0 \<le> v \<and> v \<le> 1 \<and> (modulus s < 2 ^ 54 \<longrightarrow> u < 1 \<and> v < 1)"
proof -
  let ?M = "modulus s"
  let ?c = "(prev s + cur s) mod ?M"
  from assms have u: "u = truediv (cur s mod ?M) ?M"
    and v: "v = truediv (?c mod ?M) ?M"
    by (auto simp: next_tile_uv_float_def Let_def split: if_splits)
  have "0 \<le> k mod ?M" and "k mod ?M < ?M" for k
    using assms(1) by simp_all
  from truediv_unit [OF this]
  have "0 \<le> truediv (k mod ?M) ?M \<and> truediv (k mod ?M) ?M \<le> 1
      \<and> (?M < 2 ^ 54 \<longrightarrow> truediv (k mod ?M) ?M < 1)" for k .
  from this [of "cur s"] this [of ?c] u v show ?thesis by simp
qed

lemma next_tile_uv_float_n_unit:
  "0 < modulus s \<Longrightarrow> next_tile_uv_float_n n s = Inr (cs, s') \<Longrightarrow> (u, v) \<in> set cs
     \<Longrightarrow> 0 \<le> u \<and> u \<le> 1 \<and> 0 \<le> v \<and> v \<le> 1 \<and> (modulus s < 2 ^ 54 \<longrightarrow> u < 1 \<and> v < 1)"
proof (induction n arbitrary: s cs s')
  case 0
  then show ?case by simp
next
  case (Suc n)
  from Suc.prems(2) obtain c s1 cs1 where step: "next_tile_uv_float s = Inr (c, s1)"
    and rest: "next_tile_uv_float_n n s1 = Inr (cs1, s')" and cs: "cs = c # cs1"
    by (auto split: sum.splits prod.splits)
  have m: "modulus s1 = modulus s"
    using step by (rule next_tile_uv_float_modulus)
  show ?case
  proof (cases "(u, v) = c")
    case True
    with step Suc.prems(1) show ?thesis
      using next_tile_uv_float_unit by blast
  next
    case False
    with cs Suc.prems(3) have "(u, v) \<in> set cs1" by simp
    from Suc.IH [OF _ rest this] m Suc.prems(1) show ?thesis by simp
  qed
qed

text \<open>The binary64 coordinates are the exact ones, each rounded.\<close>

lemma next_tile_uv_float_exact:
  "next_tile_uv_float s =
     map_sum id (\<lambda>((u, v), s'). ((binary64 u, binary64 v), s')) (next_tile_uv s)"
  by (simp add: next_tile_uv_float_def next_tile_uv_def truediv_def Let_def)

lemma next_tile_uv_float_n_exact:
  "next_tile_uv_float_n n s =
     map_sum id (\<lambda>(cs, s'). (map (\<lambda>(u, v). (binary64 u, binary64 v)) cs, s'))
       (next_tile_uv_n n s)"
proof (induction n arbitrary: s)
  case 0
  then show ?case by simp
next
  case (Suc n)
  show ?case
    by (cases "next_tile_uv s")
      (auto simp: next_tile_uv_float_exact Suc split: sum.splits prod.splits)
qed

lemma fib_79_mod:
  "map_sum id (last \<circ> fst) (next_tile_uv_n 79 (reset (init_scheduler 23416728348467686)))
     = Inr (14472334024676221 / 23416728348467686, 23416728348467685 / 23416728348467686)"
  by (simp add: eval_nat_numeral next_tile_uv_def reset_def init_scheduler_def Let_def)

lemma binary64_fib_79: "binary64 (14472334024676221 / 23416728348467686)
    = 5566755282872655 / 9007199254740992"
  by code_simp

lemma binary64_fib_80: "binary64 (23416728348467685 / 23416728348467686) = 1"
  by code_simp

text \<open>
  Claim C5, as stated, at the modulus 23416728348467686, the 80th Fibonacci number plus
  one: the 79th call on a freshly reset scheduler divides 14472334024676221 and
  23416728348467685 by the modulus, and the second quotient, \<open>1 - 1 / M\<close>, is nearer
  to 1 than to the binary64 value before it. The call returns \<open>v = 1.0\<close>, which is
  not in the half-open interval.
\<close>

theorem tile_v_reaches_one:
  "2 \<le> modulus (reset (init_scheduler 23416728348467686))
   \<and> map_sum id (last \<circ> fst)
        (next_tile_uv_float_n 79 (reset (init_scheduler 23416728348467686)))
      = Inr (5566755282872655 / 9007199254740992, 1)"
proof -
  let ?g = "reset (init_scheduler 23416728348467686)"
  have m: "2 \<le> modulus ?g" by (simp add: reset_def init_scheduler_def)
  then have "modulus ?g \<noteq> 0" by simp
  from next_tile_uv_n_total [OF this]
  obtain cs g' where run: "next_tile_uv_n 79 ?g = Inr (cs, g')" by blast
  from next_tile_uv_n_length [OF run] have ne: "cs \<noteq> []" by auto
  from fib_79_mod run
  have l: "last cs = (14472334024676221 / 23416728348467686,
      23416728348467685 / 23416728348467686)"
    by simp
  have "map_sum id (last \<circ> fst) (next_tile_uv_float_n 79 ?g)
      = Inr (last (map (\<lambda>(u, v). (binary64 u, binary64 v)) cs))"
    by (simp add: next_tile_uv_float_n_exact run)
  also have "last (map (\<lambda>(u, v). (binary64 u, binary64 v)) cs)
      = (\<lambda>(u, v). (binary64 u, binary64 v)) (last cs)"
    using ne by (rule last_map)
  also have "\<dots> = (5566755282872655 / 9007199254740992, 1)"
    by (simp only: l prod.case binary64_fib_79 binary64_fib_80)
  finally show ?thesis using m by blast
qed

text \<open>
  Claim C5, amended. For a modulus of at least 2, from every state of the scheduler and
  for every number of calls, the calls return without an exception and both components
  of every coordinate lie in the closed interval from 0 to 1; they are below 1 whenever
  the modulus is less than \<open>2 ^ 54\<close>.
\<close>

theorem tile_uv_float_in_unit_interval:
  assumes "2 \<le> modulus g"
  shows "\<exists>cs g'. next_tile_uv_float_n n g = Inr (cs, g') \<and> length cs = n
           \<and> (\<forall>(u, v) \<in> set cs. 0 \<le> u \<and> u \<le> 1 \<and> 0 \<le> v \<and> v \<le> 1
                 \<and> (modulus g < 2 ^ 54 \<longrightarrow> u < 1 \<and> v < 1))"
proof -
  from assms have pos: "0 < modulus g" and "modulus g \<noteq> 0" by simp_all
  from next_tile_uv_float_n_total [OF this(2)]
  obtain cs g' where run: "next_tile_uv_float_n n g = Inr (cs, g')" by blast
  have "\<forall>(u, v) \<in> set cs. 0 \<le> u \<and> u \<le> 1 \<and> 0 \<le> v \<and> v \<le> 1
          \<and> (modulus g < 2 ^ 54 \<longrightarrow> u < 1 \<and> v < 1)"
    using next_tile_uv_float_n_unit [OF pos run] by blast
  with run next_tile_uv_float_n_length [OF run] show ?thesis by blast
qed

theorem tile_uv_float_in_unit_interval_witness:
  "2 \<le> modulus \<lparr>prev = 89, cur = 44, modulus = 100\<rparr>
   \<and> (\<exists>cs g'. next_tile_uv_float_n 4 \<lparr>prev = 89, cur = 44, modulus = 100\<rparr> = Inr (cs, g')
        \<and> length cs = 4
        \<and> (\<forall>(u, v) \<in> set cs. 0 \<le> u \<and> u \<le> 1 \<and> 0 \<le> v \<and> v \<le> 1
              \<and> (modulus \<lparr>prev = 89, cur = 44, modulus = 100\<rparr> < 2 ^ 54
                    \<longrightarrow> u < 1 \<and> v < 1)))"
  using tile_uv_float_in_unit_interval [of "\<lparr>prev = 89, cur = 44, modulus = 100\<rparr>" 4]
  by simp

subsection \<open>GoldenRatioCompressor in binary32\<close>

text \<open>The two constants of the codec as binary32 values.\<close>

lemma binary32_PHI: "binary32 PHI = 13573053 / 8388608"
  by code_simp

lemma binary32_PHI_1000: "binary32 (binary64 (PHI * 1000)) = 6627467 / 4096"
  by code_simp

lemma int16_cells_compress_float32:
  "int16_cells (compress_float32 xs)
     = map (\<lambda>x. float32_astype_int16 (np_round (scaled_float32 x))) xs"
  by (induction xs) (simp_all add: compress_float32_def int16_cells_tobytes)

lemma length_compress_float32: "length (compress_float32 xs) = 2 * length xs"
  by (induction xs) (simp_all add: compress_float32_def int16_tobytes_def)

lemma decompress_compress_float32:
  "decompress_float32 (compress_float32 xs) (int (length xs)) =
     Inr (map (\<lambda>x. binary32 (real_of_int (sint (float32_astype_int16 (np_round (scaled_float32 x))))
                     / binary32 (binary64 (PHI * 1000)))) xs)"
  by (simp add: decompress_float32_def frombuffer_int16_def length_compress_float32
      int16_cells_compress_float32 comp_def)

lemma sint_float32_astype_int16:
  "- 32768 \<le> k \<Longrightarrow> k \<le> 32767 \<Longrightarrow> sint (float32_astype_int16 k) = k"
  by (simp add: float32_astype_int16_def sint_astype_int16)








text \<open>
  The round trip of one element within the range: the two products differ from the exact
  scaled value by less than 0.01, so the rounded value fits the cell, and the rounding
  of the products and of the quotient adds less than \<open>10 ^ -5\<close> to the half step of
  the quantization.
\<close>

lemma roundtrip_float32_cell:
  assumes lo: "- 32768 \<le> x * PHI * 1000" and hi: "x * PHI * 1000 \<le> 32767"
  shows "\<bar>x - binary32 (real_of_int (sint (float32_astype_int16 (np_round (scaled_float32 x))))
                     / binary32 (binary64 (PHI * 1000)))\<bar>
           \<le> 0.5 / (PHI * 1000) + 1 / 100000"
proof -
  define t1 where "t1 = binary32 (x * (13573053 / 8388608))"
  define t2 where "t2 = binary32 (t1 * 1000)"
  define r where "r = np_round t2"
  define z where "z = real_of_int r / (6627467 / 4096)"
  define y where "y = binary32 z"
  have s: "scaled_float32 x = t2"
    by (simp only: scaled_float32_def binary32_PHI t1_def t2_def)
  from lo hi have X: "\<bar>x\<bar> \<le> 2026 / 100"
    unfolding PHI_def by simp
  have "\<bar>t1 - x * (13573053 / 8388608)\<bar>
          \<le> \<bar>x * (13573053 / 8388608)\<bar> / 10000000 + 1 / 1000000000000"
    unfolding t1_def by (rule binary32_error)
  with X have b1: "\<bar>t1 - x * (13573053 / 8388608)\<bar> \<le> 33 / 10000000"
    by (simp add: abs_mult)
  with X have T1: "\<bar>t1\<bar> \<le> 328 / 10" by linarith
  have "\<bar>t2 - t1 * 1000\<bar> \<le> \<bar>t1 * 1000\<bar> / 10000000 + 1 / 1000000000000"
    unfolding t2_def by (rule binary32_error)
  with T1 have b2: "\<bar>t2 - t1 * 1000\<bar> \<le> 33 / 10000"
    by (simp add: abs_mult)
  from b1 b2 X have close: "\<bar>t2 - x * PHI * 1000\<bar> \<le> 1 / 100"
    unfolding PHI_def by linarith
  from close hi have "t2 < real_of_int 32767 + 1 / 2" by linarith
  then have r_hi: "r \<le> 32767" unfolding r_def by (rule np_round_below_half)
  from close lo have "real_of_int (- 32768) - 1 / 2 < t2" by linarith
  then have r_lo: "- 32768 \<le> r" unfolding r_def by (rule np_round_above_half)
  have cell: "sint (float32_astype_int16 r) = r"
    using r_lo r_hi by (rule sint_float32_astype_int16)
  have e3: "\<bar>real_of_int r - t2\<bar> \<le> 1 / 2"
    unfolding r_def by (rule np_round_error)
  from r_lo r_hi have R: "\<bar>real_of_int r\<bar> \<le> 32768" by linarith
  have zr: "z = real_of_int r * (4096 / 6627467)"
    by (simp add: z_def)
  from R have "\<bar>z\<bar> \<le> 2026 / 100" unfolding z_def by simp
  with binary32_error [of z] have b4: "\<bar>y - z\<bar> \<le> 21 / 10000000"
    unfolding y_def by linarith
  have step: "309 / 1000000 \<le> 0.5 / (PHI * 1000)"
    by (simp add: PHI_def)
  from b4 e3 b2 b1 X have "\<bar>x - y\<bar> \<le> 309 / 1000000 + 1 / 100000"
    unfolding zr by linarith
  with step have "\<bar>x - y\<bar> \<le> 0.5 / (PHI * 1000) + 1 / 100000"
    by linarith
  then show ?thesis
    by (simp only: s r_def [symmetric] cell binary32_PHI_1000 z_def [symmetric]
        y_def [symmetric])
qed

lemma scaled_float32_tie: "scaled_float32 (15211161 / 33554432) = 1467 / 2"
  by code_simp

lemma np_round_tie: "np_round (1467 / 2) = 734"
  by code_simp

lemma decompress_float32_cell_734:
  "decompress_float32 [222, 2] 1 = Inr [15221531 / 33554432]"
  by code_simp

text \<open>
  Claim C2, as stated, at the \<^verbatim>\<open>float32\<close> input \<open>[0.4533279240131378]\<close>, whose
  exact value is \<open>15211161 / 2 ^ 25\<close>. The exact scaled value is about 733.4999, well
  within the range, but the two binary32 products give 733.5, which is rounded to the
  even 734. The cell 734 decodes to \<open>15221531 / 2 ^ 25\<close>, and the error
  \<open>10370 / 2 ^ 25\<close>, about \<open>3.09050e-4\<close>, is above \<open>0.5 / (PHI * 1000)\<close>, about
  \<open>3.09017e-4\<close>.
\<close>

theorem roundtrip_float32_exceeds_half_step:
  "binary32 (15211161 / 33554432) = 15211161 / 33554432
   \<and> \<bar>15211161 / 33554432 * PHI * 1000\<bar> \<le> 32767
   \<and> compress_float32 [15211161 / 33554432] = [222, 2]
   \<and> decompress_float32 (compress_float32 [15211161 / 33554432]) 1
      = Inr [15221531 / 33554432]
   \<and> 0.5 / (PHI * 1000) < \<bar>15211161 / 33554432 - 15221531 / 33554432\<bar>"
proof -
  have 1: "binary32 (15211161 / 33554432) = 15211161 / 33554432" by code_simp
  have 2: "\<bar>15211161 / 33554432 * PHI * 1000\<bar> \<le> 32767" by (simp add: PHI_def)
  have 3: "compress_float32 [15211161 / 33554432] = [222, 2]"
    unfolding compress_float32_def list.map concat.simps append_Nil2 scaled_float32_tie
      np_round_tie
    by (simp add: int16_tobytes_def float32_astype_int16_def astype_int16_def)
  have 4: "decompress_float32 (compress_float32 [15211161 / 33554432]) 1
      = Inr [15221531 / 33554432]"
    by (simp only: 3 decompress_float32_cell_734)
  have 5: "0.5 / (PHI * 1000) < \<bar>15211161 / 33554432 - 15221531 / 33554432\<bar>"
    by (simp add: PHI_def)
  from 1 2 3 4 5 show ?thesis by blast
qed

text \<open>
  Claim C2, amended. For every vector of binary32 values whose scaled elements
  \<open>x * PHI * 1000\<close> all lie within the signed 16-bit range, decompressing the
  compressed vector with its element count succeeds, returns as many elements, and each
  differs from the original by at most \<open>0.5 / (PHI * 1000) + 10 ^ -5\<close>: the half step
  of the quantization and the rounding of the binary32 operations.
\<close>

theorem roundtrip_float32_error_bound:
  assumes "\<forall>x \<in> set xs. binary32 x = x
             \<and> - 32768 \<le> x * PHI * 1000 \<and> x * PHI * 1000 \<le> 32767"
  shows "\<exists>ys. decompress_float32 (compress_float32 xs) (int (length xs)) = Inr ys
           \<and> length ys = length xs
           \<and> (\<forall>i < length xs. \<bar>xs ! i - ys ! i\<bar> \<le> 0.5 / (PHI * 1000) + 1 / 100000)"
proof -
  let ?q = "\<lambda>x. binary32 (real_of_int (sint (float32_astype_int16 (np_round (scaled_float32 x))))
                     / binary32 (binary64 (PHI * 1000)))"
  have "\<bar>xs ! i - map ?q xs ! i\<bar> \<le> 0.5 / (PHI * 1000) + 1 / 100000"
    if i: "i < length xs" for i
  proof -
    from i have "xs ! i \<in> set xs" by simp
    with assms have "- 32768 \<le> xs ! i * PHI * 1000" and "xs ! i * PHI * 1000 \<le> 32767"
      by blast+
    from roundtrip_float32_cell [OF this] i show ?thesis by (simp only: nth_map)
  qed
  moreover have "decompress_float32 (compress_float32 xs) (int (length xs)) = Inr (map ?q xs)"
    by (rule decompress_compress_float32)
  moreover have "length (map ?q xs) = length xs" by (rule length_map)
  ultimately show ?thesis by blast
qed

theorem roundtrip_float32_error_bound_witness:
  "list_all (\<lambda>x. binary32 x = x \<and> - 32768 \<le> x * PHI * 1000 \<and> x * PHI * 1000 \<le> 32767)
     [13421773 / 134217728, - (13421773 / 67108864), 13421773 / 268435456, 0]
   \<and> (\<exists>ys. decompress_float32
               (compress_float32
                  [13421773 / 134217728, - (13421773 / 67108864), 13421773 / 268435456, 0])
               (int (length
                  [13421773 / 134217728, - (13421773 / 67108864), 13421773 / 268435456,
                   0 :: real])) = Inr ys
        \<and> length ys
            = length [13421773 / 134217728, - (13421773 / 67108864), 13421773 / 268435456,
                      0 :: real]
        \<and> (\<forall>i < length [13421773 / 134217728, - (13421773 / 67108864),
                           13421773 / 268435456, 0 :: real].
              \<bar>[13421773 / 134217728, - (13421773 / 67108864), 13421773 / 268435456, 0] ! i
                 - ys ! i\<bar> \<le> 0.5 / (PHI * 1000) + 1 / 100000))"
proof -
  have f1: "binary32 (13421773 / 134217728) = 13421773 / 134217728" by code_simp
  have f2: "binary32 (- (13421773 / 67108864)) = - (13421773 / 67108864)" by code_simp
  have f3: "binary32 (13421773 / 268435456) = 13421773 / 268435456" by code_simp
  have f4: "binary32 0 = 0" by (simp add: binary32_def round_binary_def)
  have h: "\<forall>x \<in> set [13421773 / 134217728, - (13421773 / 67108864), 13421773 / 268435456,
        0 :: real].
      binary32 x = x \<and> - 32768 \<le> x * PHI * 1000 \<and> x * PHI * 1000 \<le> 32767"
    using f1 f2 f3 f4 by (simp add: PHI_def)
  then have "list_all
      (\<lambda>x. binary32 x = x \<and> - 32768 \<le> x * PHI * 1000 \<and> x * PHI * 1000 \<le> 32767)
     [13421773 / 134217728, - (13421773 / 67108864), 13421773 / 268435456, 0]"
    by (simp only: list_all_iff)
  with roundtrip_float32_error_bound [OF h] show ?thesis by blast
qed

end
